theory Spec2Isabelle
  imports Complex_Main "HOL-Library.List_Lexorder"
begin

section \<open>Strings and the regular expressions of the age-group normalisation\<close>

text \<open>
  The dashboard (\<^verbatim>\<open>src/dashboard.py\<close>) is a Streamlit script over a Spark
  data frame. Its strings are Unicode: the patterns of \<^verbatim>\<open>load_data\<close> contain
  U+2265 and the regular expression \<^verbatim>\<open>.\<close> consumes one code point, so a string
  is modelled as the list of its code points, not of its bytes.
\<close>

type_synonym ustring = "nat list"

text \<open>An ASCII literal of the source, as code points.\<close>

definition ascii :: "string \<Rightarrow> ustring" where
  "ascii s = map of_char s"

text \<open>
  Spark's \<^verbatim>\<open>trim(col)\<close> removes the leading and the trailing space characters
  (U+0020) of the value.
\<close>

definition is_space :: "nat \<Rightarrow> bool" where
  "is_space c = (c = 32)"

definition trim :: "ustring \<Rightarrow> ustring" where
  "trim s = rev (dropWhile is_space (rev (dropWhile is_space s)))"

text \<open>
  The fragment of \<^verbatim>\<open>java.util.regex\<close> that the six patterns use: a literal
  character, \<^verbatim>\<open>.\<close>, \<^verbatim>\<open>?\<close>, concatenation and \<^verbatim>\<open>|\<close>. Without the DOTALL
  flag \<^verbatim>\<open>.\<close> matches any character but a line terminator.
\<close>

datatype regex =
    Chr nat
  | Dot
  | Opt regex
  | Seq regex regex
  | Alt regex regex

definition line_terminator :: "nat \<Rightarrow> bool" where
  "line_terminator c = (c = 10 \<or> c = 13 \<or> c = 133 \<or> c = 8232 \<or> c = 8233)"

text \<open>
  \<open>rmatch r s\<close> lists, in the order a backtracking matcher tries them, the rests of
  \<open>s\<close> after each prefix of \<open>s\<close> that \<open>r\<close> matches; \<^verbatim>\<open>?\<close> is greedy.
\<close>

fun rmatch :: "regex \<Rightarrow> ustring \<Rightarrow> ustring list" where
  "rmatch (Chr c) s = (case s of [] \<Rightarrow> [] | x # xs \<Rightarrow> if x = c then [xs] else [])"
| "rmatch Dot s = (case s of [] \<Rightarrow> [] | x # xs \<Rightarrow> if line_terminator x then [] else [xs])"
| "rmatch (Opt r) s = rmatch r s @ [s]"
| "rmatch (Seq r1 r2) s = concat (map (rmatch r2) (rmatch r1 s))"
| "rmatch (Alt r1 r2) s = rmatch r1 s @ rmatch r2 s"

text \<open>
  Column \<^verbatim>\<open>rlike\<close> is \<^verbatim>\<open>Matcher.find\<close>: the pattern may match at any position of
  the value, not only the whole of it.
\<close>

fun rlike :: "ustring \<Rightarrow> regex \<Rightarrow> bool" where
  "rlike [] r = (rmatch r [] \<noteq> [])"
| "rlike (x # xs) r = (rmatch r (x # xs) \<noteq> [] \<or> rlike xs r)"

text \<open>A literal string as a pattern; the empty pattern is not used by the source.\<close>

fun lit :: "ustring \<Rightarrow> regex" where
  "lit [] = Opt (Chr 0)"
| "lit [c] = Chr c"
| "lit (c # cs) = Seq (Chr c) (lit cs)"

text \<open>\<^verbatim>\<open>a.?b\<close> for two literal strings \<open>a\<close> and \<open>b\<close>.\<close>

definition loose :: "ustring \<Rightarrow> ustring \<Rightarrow> regex" where
  "loose a b = Seq (lit a) (Seq (Opt Dot) (lit b))"

text \<open>
  The patterns of lines 47 to 52. In the first one the source has the characters
  U+2265 (greater-or-equal) and the mojibake U+00E2 U+2030 U+00A5.
\<close>

definition pat_ge50 :: regex where
  "pat_ge50 = Alt (lit (ascii ''>=50''))
                (Alt (lit (8805 # ascii ''50''))
                     (lit (226 # 8240 # 165 # ascii ''50'')))"

definition pat_0_4 :: regex where
  "pat_0_4 = loose (ascii ''0'') (ascii ''4'')"

definition pat_5_14 :: regex where
  "pat_5_14 = Alt (loose (ascii ''5'') (ascii ''14'')) (lit (ascii ''14-May''))"

definition pat_15_19 :: regex where
  "pat_15_19 = loose (ascii ''15'') (ascii ''19'')"

definition pat_20_24 :: regex where
  "pat_20_24 = loose (ascii ''20'') (ascii ''24'')"

definition pat_25_49 :: regex where
  "pat_25_49 = loose (ascii ''25'') (ascii ''49'')"

definition label_ge50 :: ustring where
  "label_ge50 = 8805 # ascii ''50''"

text \<open>
  The \<^verbatim>\<open>when\<close> chain that rewrites column \<^verbatim>\<open>Kelompok_Umur\<close> (lines 45 to 54):
  the first condition that holds gives the value, \<^verbatim>\<open>otherwise\<close> the trimmed value.
\<close>

definition normalize_Kelompok_Umur :: "ustring \<Rightarrow> ustring" where
  "normalize_Kelompok_Umur v =
     (if rlike (trim v) pat_ge50 then label_ge50
      else if rlike (trim v) pat_0_4 then ascii ''0-4''
      else if rlike (trim v) pat_5_14 then ascii ''5-14''
      else if rlike (trim v) pat_15_19 then ascii ''15-19''
      else if rlike (trim v) pat_20_24 then ascii ''20-24''
      else if rlike (trim v) pat_25_49 then ascii ''25-49''
      else trim v)"

section \<open>The canonical table and its loader\<close>

text \<open>
  A row of the table after \<^verbatim>\<open>load_data\<close> has renamed the columns (lines 55 to 60).
  \<^verbatim>\<open>inferSchema\<close> reads \<^verbatim>\<open>tahun\<close> and \<^verbatim>\<open>jumlah_kasus\<close> as integers; the
  model takes every cell as present (no null).
\<close>

record case_row =
  Kabupaten_Kota :: ustring
  Kelompok_Umur :: ustring
  Jenis_Kelamin :: ustring
  Tahun :: int
  Jumlah_Kasus :: int

type_synonym dataframe = "case_row list"

text \<open>
  Spark does not specify the order in which a \<^verbatim>\<open>groupBy\<close> without \<^verbatim>\<open>orderBy\<close>
  gives its groups: it follows the partition in which the hash of a key places the
  group. The model takes this placement as unknown: a run of the engine comes with a
  position for every key, one for the text keys and one for the integer keys, and the
  groups come out by position. Every order of the groups is the order of some
  placement, and nothing below assumes anything about the placement.
\<close>

record engine =
  text_partition :: "ustring \<Rightarrow> nat"
  int_partition :: "int \<Rightarrow> nat"

text \<open>
  What the script reads from outside: whether \<^verbatim>\<open>getOrCreate\<close> gives a session
  (and then which engine), whether \<^verbatim>\<open>os.path.exists(csv_path)\<close> holds, and what
  \<^verbatim>\<open>spark.read.csv\<close> and the column operations after it give on the file: the rows,
  or the exception they raise.
\<close>

datatype exn = FileNotFoundError string | SparkException string




text \<open>What the script shows: the Streamlit calls that carry a message.\<close>

datatype notice =
    St_error string
  | St_exception exn
  | St_warning string



section \<open>Filter and aggregation\<close>

text \<open>Lines 92 to 95: the year equals the selected one and the region is a selected one.\<close>

definition filtered_spark :: "dataframe \<Rightarrow> int \<Rightarrow> ustring list \<Rightarrow> dataframe" where
  "filtered_spark df tahun_pilih kota_pilih =
     filter (\<lambda>r. Tahun r = tahun_pilih \<and> Kabupaten_Kota r \<in> set kota_pilih) df"

text \<open>Spark's \<^verbatim>\<open>sum\<close> over no row is null, here \<open>None\<close>.\<close>

definition spark_sum :: "int list \<Rightarrow> int option" where
  "spark_sum xs = (if xs = [] then None else Some (sum_list xs))"

text \<open>Lines 169 to 173.\<close>

definition total_kasus :: "dataframe \<Rightarrow> int" where
  "total_kasus view =
     (case spark_sum (map Jumlah_Kasus view) of None \<Rightarrow> 0 | Some t \<Rightarrow> t)"

text \<open>Lines 175 to 178.\<close>

definition jumlah_wilayah :: "dataframe \<Rightarrow> nat" where
  "jumlah_wilayah view = length (remdups (map Kabupaten_Kota view))"

text \<open>
  \<^verbatim>\<open>groupBy(key).agg(sum("Jumlah_Kasus").alias("Total"))\<close>: one row for each value
  of the key, with the sum over the rows that have it, in the order of the placement.
\<close>

definition groupBy_sum ::
  "('k \<Rightarrow> nat) \<Rightarrow> (case_row \<Rightarrow> 'k) \<Rightarrow> dataframe \<Rightarrow> ('k \<times> int) list" where
  "groupBy_sum place key view =
     map (\<lambda>k. (k, sum_list (map Jumlah_Kasus (filter (\<lambda>r. key r = k) view))))
         (sort_key place (remdups (map key view)))"

text \<open>
  Lines 180 to 187. \<^verbatim>\<open>orderBy\<close> sorts strings in the order of their code points, which
  is the lexicographic order of \<open>ustring\<close>. The keys of a grouped table are distinct, so
  that every sort below has one result, whether the sorting algorithm is stable or not.
  The gender table has no \<^verbatim>\<open>orderBy\<close>: its rows stay in the order of the engine.
\<close>

definition df_umur_spark :: "engine \<Rightarrow> dataframe \<Rightarrow> (ustring \<times> int) list" where
  "df_umur_spark spark view =
     sort_key fst (groupBy_sum (text_partition spark) Kelompok_Umur view)"

definition df_gender_spark :: "engine \<Rightarrow> dataframe \<Rightarrow> (ustring \<times> int) list" where
  "df_gender_spark spark view = groupBy_sum (text_partition spark) Jenis_Kelamin view"

text \<open>Lines 262 to 266: the region filter alone, on the whole table.\<close>

definition df_trend_spark ::
  "engine \<Rightarrow> dataframe \<Rightarrow> ustring list \<Rightarrow> (int \<times> int) list" where
  "df_trend_spark spark df kota_pilih =
     sort_key fst
       (groupBy_sum (int_partition spark) Tahun
          (filter (\<lambda>r. Kabupaten_Kota r \<in> set kota_pilih) df))"

section \<open>The pandas frames\<close>

text \<open>
  A pandas frame of two columns: each row has its index label, the key column and
  \<^verbatim>\<open>Total\<close>. \<^verbatim>\<open>toPandas\<close> labels the rows 0, 1, 2, ...; sorting moves a row
  together with its label.
\<close>

type_synonym 'k frame = "(nat \<times> 'k \<times> int) list"

definition key_col :: "nat \<times> 'k \<times> int \<Rightarrow> 'k" where
  "key_col row = fst (snd row)"

definition Total :: "nat \<times> 'k \<times> int \<Rightarrow> int" where
  "Total row = snd (snd row)"

definition toPandas :: "('k \<times> int) list \<Rightarrow> 'k frame" where
  "toPandas rows = zip [0..<length rows] rows"

text \<open>The position of the first maximum, as numpy's \<^verbatim>\<open>argmax\<close> gives it.\<close>

fun argmax :: "int list \<Rightarrow> nat" where
  "argmax [] = 0"
| "argmax (x # xs) = (if list_all (\<lambda>y. y \<le> x) xs then 0 else Suc (argmax xs))"

text \<open>
  \<^verbatim>\<open>df["Total"].idxmax()\<close>: the label of the row at that position; on an empty frame
  pandas raises ValueError, here \<open>None\<close>.
\<close>

definition idxmax :: "'k frame \<Rightarrow> nat option" where
  "idxmax fr = (if fr = [] then None else Some (fst (fr ! argmax (map Total fr))))"

text \<open>\<^verbatim>\<open>df.loc[label]\<close>: the row of that label; KeyError, here \<open>None\<close>, if there is none.\<close>

definition loc :: "'k frame \<Rightarrow> nat \<Rightarrow> (nat \<times> 'k \<times> int) option" where
  "loc fr l = find (\<lambda>row. fst row = l) fr"

text \<open>\<^verbatim>\<open>df.loc[df["Total"].idxmax()]\<close>, with every exception as \<open>None\<close>.\<close>

definition loc_idxmax :: "'k frame \<Rightarrow> (nat \<times> 'k \<times> int) option" where
  "loc_idxmax fr = (case idxmax fr of None \<Rightarrow> None | Some l \<Rightarrow> loc fr l)"

text \<open>\<^verbatim>\<open>Series.unique()\<close>: the values in the order of their first occurrence.\<close>

fun unique :: "'a list \<Rightarrow> 'a list" where
  "unique [] = []"
| "unique (x # xs) = x # unique (removeAll x xs)"

text \<open>
  \<^verbatim>\<open>list.index\<close>, and the code of a value in a pandas Categorical: its position in the
  list. For a value that is not in the list the result is the length of the list (a
  Categorical sorts such a value last).
\<close>

fun index_of :: "'a list \<Rightarrow> 'a \<Rightarrow> nat" where
  "index_of [] y = 0"
| "index_of (x # xs) y = (if x = y then 0 else Suc (index_of xs y))"

text \<open>Lines 190 to 198.\<close>

definition desired_age_order :: "ustring list" where
  "desired_age_order =
     [ascii ''0-4'', ascii ''5-14'', ascii ''15-19'', ascii ''20-24'', ascii ''25-49'', label_ge50]"

definition unique_ages :: "ustring frame \<Rightarrow> ustring list" where
  "unique_ages fr = unique (map key_col fr)"

definition final_order :: "ustring frame \<Rightarrow> ustring list" where
  "final_order fr =
     filter (\<lambda>a. a \<in> set (unique_ages fr)) desired_age_order @
     filter (\<lambda>a. a \<notin> set desired_age_order) (unique_ages fr)"

definition df_umur :: "engine \<Rightarrow> dataframe \<Rightarrow> ustring frame" where
  "df_umur spark view =
     (let fr = toPandas (df_umur_spark spark view)
      in if fr \<noteq> [] then sort_key (\<lambda>row. index_of (final_order fr) (key_col row)) fr
         else fr)"

definition age_category_order :: "engine \<Rightarrow> dataframe \<Rightarrow> ustring list" where
  "age_category_order spark view =
     (let fr = toPandas (df_umur_spark spark view)
      in if fr \<noteq> [] then final_order fr else desired_age_order)"

definition df_gender :: "engine \<Rightarrow> dataframe \<Rightarrow> ustring frame" where
  "df_gender spark view = toPandas (df_gender_spark spark view)"

definition df_trend :: "engine \<Rightarrow> dataframe \<Rightarrow> ustring list \<Rightarrow> int frame" where
  "df_trend spark df kota_pilih = toPandas (df_trend_spark spark df kota_pilih)"

section \<open>The insights\<close>

text \<open>
  \<^verbatim>\<open>(part / total_kasus * 100) if total_kasus else 0\<close> (lines 207, 291 and 299). The
  quotient is a Python float; the model keeps the exact rational and leaves the rounding
  of the float out.
\<close>

definition pct :: "int \<Rightarrow> int \<Rightarrow> rat" where
  "pct part whole = (if whole \<noteq> 0 then of_int part / of_int whole * 100 else 0)"

text \<open>Lines 202 to 211: the row of the largest total, \<open>None\<close> without one.\<close>

definition kelompok_dominan :: "ustring frame \<Rightarrow> (nat \<times> ustring \<times> int) option" where
  "kelompok_dominan fr = (if fr \<noteq> [] then loc_idxmax fr else None)"

text \<open>
  A column of the insight row shows either a metric (name, total, share of all cases) or,
  when its \<^verbatim>\<open>try\<close> block raised, a note.
\<close>

datatype 'k insight = Metric 'k int rat | Info string

text \<open>Lines 288 to 294; subscripting \<^verbatim>\<open>None\<close> raises, which gives the note.\<close>

definition insight_col1 :: "ustring frame \<Rightarrow> int \<Rightarrow> ustring insight" where
  "insight_col1 fr whole =
     (case kelompok_dominan fr of
        None \<Rightarrow> Info ''Data umur tidak tersedia''
      | Some row \<Rightarrow> Metric (key_col row) (Total row) (pct (Total row) whole))"

text \<open>Lines 295 to 302.\<close>

definition insight_col2 :: "ustring frame \<Rightarrow> int \<Rightarrow> ustring insight" where
  "insight_col2 fr whole =
     (case loc_idxmax fr of
        None \<Rightarrow> Info ''Data gender tidak tersedia''
      | Some gender_dom \<Rightarrow>
          Metric (key_col gender_dom) (Total gender_dom) (pct (Total gender_dom) whole))"

text \<open>
  Lines 307 to 319: the text after the peak total. \<open>Naik_dari yoy prev\<close> is the
  percentage with the previous total, \<open>Tidak_ada_data_sebelumnya\<close> the text of the
  \<^verbatim>\<open>else\<close> branch, \<open>Dash\<close> the text \<^verbatim>\<open>-\<close>.
\<close>

datatype yoy = Naik_dari rat int | Tidak_ada_data_sebelumnya | Dash

definition yoy_text :: "int frame \<Rightarrow> int \<Rightarrow> int \<Rightarrow> yoy" where
  "yoy_text fr top_year top_total =
     (let sorted_trend = sort_key key_col fr;
          years = map key_col sorted_trend;
          vals = map Total sorted_trend
      in if top_year \<in> set years then
           (let idx = index_of years top_year
            in if idx > 0 \<and> vals ! (idx - 1) \<noteq> 0 then
                 (let prev = vals ! (idx - 1)
                  in Naik_dari (of_int (top_total - prev) / of_int prev * 100) prev)
               else Tidak_ada_data_sebelumnya)
         else Dash)"

datatype peak = Puncak_Tahun int int yoy | Peak_info string

text \<open>
  Lines 303 to 322. \<^verbatim>\<open>top_year\<close> is the year of the row as an integer on both branches
  of the \<^verbatim>\<open>isdigit\<close> test.
\<close>

definition insight_col3 :: "int frame \<Rightarrow> peak" where
  "insight_col3 fr =
     (case loc_idxmax fr of
        None \<Rightarrow> Peak_info ''Data tren tidak tersedia''
      | Some top_row \<Rightarrow>
          Puncak_Tahun (key_col top_row) (Total top_row)
            (yoy_text fr (key_col top_row) (Total top_row)))"

section \<open>The page\<close>

text \<open>
  What one run of the script shows for a loaded table and a selection: the two metrics,
  the tables of the three charts and the three insight columns. The download of the
  filtered rows and the fixed narrative are left out.
\<close>

record page =
  metric_total_kasus :: int
  metric_jumlah_wilayah :: nat
  fig_umur :: "ustring frame"
  fig_umur_order :: "ustring list"
  fig_gender :: "ustring frame"
  fig_trend :: "int frame"
  col_umur :: "ustring insight"
  col_gender :: "ustring insight"
  col_puncak :: peak

datatype outcome = Stopped "notice list" | Rendered page

text \<open>Lines 92 to 98: an empty selection ends the run at \<^verbatim>\<open>st.stop()\<close>.\<close>

definition dashboard :: "engine \<Rightarrow> dataframe \<Rightarrow> int \<Rightarrow> ustring list \<Rightarrow> outcome" where
  "dashboard spark df_spark tahun_pilih kota_pilih =
     (let view = filtered_spark df_spark tahun_pilih kota_pilih
      in if length view = 0 then
           Stopped [St_warning ''Data tidak tersedia untuk filter tersebut.'']
         else
           Rendered
             \<lparr>metric_total_kasus = total_kasus view,
              metric_jumlah_wilayah = jumlah_wilayah view,
              fig_umur = df_umur spark view,
              fig_umur_order = age_category_order spark view,
              fig_gender = df_gender spark view,
              fig_trend = df_trend spark df_spark kota_pilih,
              col_umur = insight_col1 (df_umur spark view) (total_kasus view),
              col_gender = insight_col2 (df_gender spark view) (total_kasus view),
              col_puncak = insight_col3 (df_trend spark df_spark kota_pilih)\<rparr>)"



section \<open>The specification's descriptions\<close>

text \<open>
  "Strip surrounding whitespace", as the specification words the first step of the
  normaliser: the white space of Unicode below U+0080 is tab, line feed, vertical tab,
  form feed, carriage return and space.
\<close>

definition is_whitespace :: "nat \<Rightarrow> bool" where
  "is_whitespace c = (c = 9 \<or> c = 10 \<or> c = 11 \<or> c = 12 \<or> c = 13 \<or> c = 32)"

definition strip_whitespace :: "ustring \<Rightarrow> ustring" where
  "strip_whitespace s = rev (dropWhile is_whitespace (rev (dropWhile is_whitespace s)))"

text \<open>
  What a pattern of the normaliser asks of a value, said without a matcher: the string
  \<open>w\<close> occurs in \<open>s\<close> at some position; and \<open>a\<close> occurs in \<open>s\<close> followed by
  \<open>b\<close>, either at once or after one character that is not a line terminator.
\<close>

fun occurs :: "ustring \<Rightarrow> ustring \<Rightarrow> bool" where
  "occurs w [] = (w = [])"
| "occurs w (x # xs) = (take (length w) (x # xs) = w \<or> occurs w xs)"

definition occurs_loose :: "ustring \<Rightarrow> ustring \<Rightarrow> ustring \<Rightarrow> bool" where
  "occurs_loose a b s =
     (occurs (a @ b) s \<or> list_ex (\<lambda>c. occurs (a @ [c] @ b) s \<and> \<not> line_terminator c) s)"

text \<open>
  "Two integers separated by exactly one arbitrary character", as the specification
  words a loose pattern: the value is \<open>a\<close>, one character, \<open>b\<close>.
\<close>

definition exactly_one_between :: "ustring \<Rightarrow> ustring \<Rightarrow> ustring \<Rightarrow> bool" where
  "exactly_one_between a b s =
     (length s = length a + 1 + length b \<and> take (length a) s = a \<and>
      drop (Suc (length a)) s = b)"

text \<open>
  The entry that an insight reports, as the specification words it: of the rows with the
  largest total, the one that comes first in the row order of the table.
\<close>

definition first_tied :: "'k frame \<Rightarrow> (nat \<times> 'k \<times> int) option" where
  "first_tied fr = find (\<lambda>row. list_all (\<lambda>other. Total other \<le> Total row) fr) fr"

section \<open>Example tables\<close>

text \<open>
  The table of the specification's example scenario, a table whose peak year follows a
  year without cases, a table whose labels are not in ascending order, a table with
  ties, an engine and a second one that places the text keys the other way round, the
  pages that the script shows with the first engine for two of the tables, and an
  environment in which the source file is missing. They serve as concrete inputs below.
\<close>

definition ex_row :: "string \<Rightarrow> string \<Rightarrow> string \<Rightarrow> int \<Rightarrow> int \<Rightarrow> case_row" where
  "ex_row k u g t j =
     \<lparr>Kabupaten_Kota = ascii k, Kelompok_Umur = ascii u, Jenis_Kelamin = ascii g,
      Tahun = t, Jumlah_Kasus = j\<rparr>"

definition ex_table :: dataframe where
  "ex_table =
     [ex_row ''Bandung'' ''0-4'' ''L'' 2022 10,
      ex_row ''Bandung'' ''0-4'' ''P'' 2022 5,
      ex_row ''Bandung'' ''0-4'' ''L'' 2021 8]"

definition ex_engine :: engine where
  "ex_engine = \<lparr>text_partition = sum_list, int_partition = (\<lambda>y. nat (y mod 3))\<rparr>"

definition ex_engine_reversed :: engine where
  "ex_engine_reversed =
     \<lparr>text_partition = (\<lambda>k. 1000 - sum_list k), int_partition = (\<lambda>y. 0)\<rparr>"


definition ex_zero_before_peak :: dataframe where
  "ex_zero_before_peak =
     [ex_row ''Bogor'' ''0-4'' ''L'' 2019 0,
      ex_row ''Bogor'' ''0-4'' ''P'' 2020 5]"

definition ex_unsorted :: dataframe where
  "ex_unsorted =
     [ex_row ''Bogor'' ''zz'' ''L'' 2021 1,
      ex_row ''Bogor'' ''Abc'' ''L'' 2021 2,
      ex_row ''Bogor'' ''0-4'' ''P'' 2021 3]"

definition ex_ties :: dataframe where
  "ex_ties =
     [ex_row ''Bogor'' ''zz'' ''P'' 2021 5,
      ex_row ''Bogor'' ''5-14'' ''L'' 2021 5,
      ex_row ''Bogor'' ''0-4'' ''L'' 2020 10]"

definition ex_page :: page where
  "ex_page =
     \<lparr>metric_total_kasus = 15, metric_jumlah_wilayah = 1,
      fig_umur = [(0, ascii ''0-4'', 15)], fig_umur_order = [ascii ''0-4''],
      fig_gender = [(0, ascii ''L'', 10), (1, ascii ''P'', 5)],
      fig_trend = [(0, 2021, 8), (1, 2022, 15)],
      col_umur = Metric (ascii ''0-4'') 15 100,
      col_gender = Metric (ascii ''L'') 10 (200 / 3),
      col_puncak = Puncak_Tahun 2022 15 (Naik_dari (175 / 2) 8)\<rparr>"

definition ex_ties_page :: page where
  "ex_ties_page =
     \<lparr>metric_total_kasus = 10, metric_jumlah_wilayah = 1,
      fig_umur = [(0, ascii ''5-14'', 5), (1, ascii ''zz'', 5)],
      fig_umur_order = [ascii ''5-14'', ascii ''zz''],
      fig_gender = [(0, ascii ''L'', 5), (1, ascii ''P'', 5)],
      fig_trend = [(0, 2020, 10), (1, 2021, 10)],
      col_umur = Metric (ascii ''5-14'') 5 50,
      col_gender = Metric (ascii ''L'') 5 50,
      col_puncak = Puncak_Tahun 2020 10 Tidak_ada_data_sebelumnya\<rparr>"

section \<open>The normaliser\<close>

lemma rmatch_lit:
  "a \<noteq> [] \<Longrightarrow> rmatch (lit a) s = (if take (length a) s = a then [drop (length a) s] else [])"
proof (induction a arbitrary: s rule: lit.induct)
  case 1
  then show ?case by simp
next
  case (2 c)
  then show ?case by (cases s) auto
next
  case (3 c d cs)
  then show ?case by (cases s) auto
qed

lemma take_eq_iff: "take (length a) s = a \<longleftrightarrow> (\<exists>t. s = a @ t)"
  by (metis append_eq_conv_conj append_take_drop_id)

lemma rmatch_loose:
  assumes "a \<noteq> []" "b \<noteq> []"
  shows "rmatch (loose a b) s \<noteq> [] \<longleftrightarrow>
     (\<exists>t. s = a @ b @ t) \<or> (\<exists>c t. s = a @ [c] @ b @ t \<and> \<not> line_terminator c)"
proof (cases "take (length a) s = a")
  case False
  then have "\<not> (\<exists>t. s = a @ t)" by (simp add: take_eq_iff)
  then have "\<not> ((\<exists>t. s = a @ b @ t) \<or> (\<exists>c t. s = a @ [c] @ b @ t \<and> \<not> line_terminator c))"
    by blast
  with False assms show ?thesis by (simp add: loose_def rmatch_lit)
next
  case True
  then obtain u where u: "s = a @ u" by (auto simp: take_eq_iff)
  have "rmatch (loose a b) s \<noteq> [] \<longleftrightarrow>
        (\<exists>t. u = b @ t) \<or> (\<exists>c t. u = c # b @ t \<and> \<not> line_terminator c)"
    using assms u by (cases u) (auto simp: loose_def rmatch_lit take_eq_iff)
  then show ?thesis using u by auto
qed

lemma rlike_iff: "rlike s r \<longleftrightarrow> (\<exists>pre suf. s = pre @ suf \<and> rmatch r suf \<noteq> [])"
proof (induction s)
  case Nil
  then show ?case by simp
next
  case (Cons x xs)
  show ?case
  proof
    assume "rlike (x # xs) r"
    then consider "rmatch r (x # xs) \<noteq> []" | "rlike xs r" by auto
    then show "\<exists>pre suf. x # xs = pre @ suf \<and> rmatch r suf \<noteq> []"
    proof cases
      case 1
      then have "x # xs = [] @ (x # xs) \<and> rmatch r (x # xs) \<noteq> []" by simp
      then show ?thesis by blast
    next
      case 2
      then obtain pre suf where "xs = pre @ suf" "rmatch r suf \<noteq> []"
        using Cons.IH by blast
      then have "x # xs = (x # pre) @ suf \<and> rmatch r suf \<noteq> []" by simp
      then show ?thesis by blast
    qed
  next
    assume "\<exists>pre suf. x # xs = pre @ suf \<and> rmatch r suf \<noteq> []"
    then obtain pre suf where ps: "x # xs = pre @ suf" "rmatch r suf \<noteq> []" by blast
    show "rlike (x # xs) r"
    proof (cases pre)
      case Nil
      with ps have "suf = x # xs" by simp
      with ps(2) show ?thesis by simp
    next
      case (Cons y ys)
      with ps have "xs = ys @ suf" by simp
      with ps(2) Cons.IH show ?thesis by auto
    qed
  qed
qed

lemma occurs_iff: "occurs w s \<longleftrightarrow> (\<exists>pre post. s = pre @ w @ post)"
proof (induction s)
  case Nil
  then show ?case by simp
next
  case (Cons x xs)
  show ?case
  proof
    assume "occurs w (x # xs)"
    then consider "take (length w) (x # xs) = w" | "occurs w xs" by auto
    then show "\<exists>pre post. x # xs = pre @ w @ post"
    proof cases
      case 1
      then obtain t where "x # xs = w @ t" by (auto simp: take_eq_iff)
      then have "x # xs = [] @ w @ t" by simp
      then show ?thesis by blast
    next
      case 2
      then obtain pre post where "xs = pre @ w @ post" using Cons.IH by blast
      then have "x # xs = (x # pre) @ w @ post" by simp
      then show ?thesis by blast
    qed
  next
    assume "\<exists>pre post. x # xs = pre @ w @ post"
    then obtain pre post where ps: "x # xs = pre @ w @ post" by blast
    show "occurs w (x # xs)"
    proof (cases pre)
      case Nil
      with ps have "take (length w) (x # xs) = w" by (simp add: take_eq_iff)
      then show ?thesis by simp
    next
      case (Cons y ys)
      with ps have "xs = ys @ w @ post" by simp
      with Cons.IH show ?thesis by auto
    qed
  qed
qed

lemma rlike_lit: "w \<noteq> [] \<Longrightarrow> rlike s (lit w) = occurs w s"
  by (induction s) (simp_all add: rmatch_lit)

lemma rlike_Alt: "rlike s (Alt r1 r2) \<longleftrightarrow> rlike s r1 \<or> rlike s r2"
  by (induction s) auto

lemma rlike_loose_occurs:
  assumes "a \<noteq> []" and "b \<noteq> []"
  shows "rlike s (loose a b) = occurs_loose a b s"
proof -
  have direct: "occurs (a @ b) s \<longleftrightarrow> (\<exists>pre t. s = pre @ a @ b @ t)"
    by (simp add: occurs_iff)
  have one: "list_ex (\<lambda>c. occurs (a @ [c] @ b) s \<and> \<not> line_terminator c) s \<longleftrightarrow>
             (\<exists>pre c t. s = pre @ a @ [c] @ b @ t \<and> \<not> line_terminator c)"
  proof
    assume "list_ex (\<lambda>c. occurs (a @ [c] @ b) s \<and> \<not> line_terminator c) s"
    then obtain c where "occurs (a @ [c] @ b) s" and c: "\<not> line_terminator c"
      by (auto simp: list_ex_iff)
    then obtain pre t where "s = pre @ (a @ [c] @ b) @ t" by (auto simp: occurs_iff)
    then have "s = pre @ a @ [c] @ b @ t" by simp
    with c show "\<exists>pre c t. s = pre @ a @ [c] @ b @ t \<and> \<not> line_terminator c" by blast
  next
    assume "\<exists>pre c t. s = pre @ a @ [c] @ b @ t \<and> \<not> line_terminator c"
    then obtain pre c t where s: "s = pre @ a @ [c] @ b @ t" and c: "\<not> line_terminator c"
      by blast
    from s have "s = pre @ (a @ [c] @ b) @ t" by simp
    then have "occurs (a @ [c] @ b) s" unfolding occurs_iff by blast
    moreover from s have "c \<in> set s" by simp
    ultimately show "list_ex (\<lambda>c. occurs (a @ [c] @ b) s \<and> \<not> line_terminator c) s"
      using c unfolding list_ex_iff by blast
  qed
  have "rlike s (loose a b) \<longleftrightarrow>
        (\<exists>pre t. s = pre @ a @ b @ t) \<or>
        (\<exists>pre c t. s = pre @ a @ [c] @ b @ t \<and> \<not> line_terminator c)"
    unfolding rlike_iff rmatch_loose [OF assms] by blast
  then show ?thesis by (simp only: occurs_loose_def direct one)
qed

lemma trim_rest:
  "dropWhile is_space v = trim v @ rev (takeWhile is_space (rev (dropWhile is_space v)))"
proof -
  let ?rest = "dropWhile is_space v"
  have "takeWhile is_space (rev ?rest) @ dropWhile is_space (rev ?rest) = rev ?rest"
    by (rule takeWhile_dropWhile_id)
  then have "rev (takeWhile is_space (rev ?rest) @ dropWhile is_space (rev ?rest)) =
             rev (rev ?rest)"
    by (rule arg_cong)
  then have "rev (dropWhile is_space (rev ?rest)) @ rev (takeWhile is_space (rev ?rest)) =
             ?rest"
    by (simp only: rev_append rev_rev_ident)
  then show ?thesis by (simp only: trim_def)
qed

lemma trim_decompose:
  "\<exists>pre post. v = pre @ trim v @ post \<and> list_all is_space pre \<and> list_all is_space post"
proof -
  let ?tail = "takeWhile is_space (rev (dropWhile is_space v))"
  have "takeWhile is_space v @ dropWhile is_space v = v"
    by (rule takeWhile_dropWhile_id)
  with trim_rest [of v] have "v = takeWhile is_space v @ trim v @ rev ?tail"
    by simp
  moreover have "list_all is_space (takeWhile is_space v)"
    by (auto simp: list_all_iff dest: set_takeWhileD)
  moreover have "list_all is_space (rev ?tail)"
    by (auto simp: list_all_iff dest: set_takeWhileD)
  ultimately show ?thesis by blast
qed

lemma trim_ends: "trim v = [] \<or> (\<not> is_space (hd (trim v)) \<and> \<not> is_space (last (trim v)))"
proof (cases "trim v = []")
  case True
  then show ?thesis by simp
next
  case False
  let ?rest = "dropWhile is_space v"
  let ?kept = "dropWhile is_space (rev ?rest)"
  have t: "trim v = rev ?kept" by (simp add: trim_def)
  with False have kept: "?kept \<noteq> []" by simp
  then have "\<not> is_space (hd ?kept)" by (rule hd_dropWhile)
  then have last: "\<not> is_space (last (trim v))" using kept by (simp add: t last_rev)
  have ne: "?rest \<noteq> []"
  proof
    assume r: "?rest = []"
    have "trim v = rev (dropWhile is_space (rev ?rest))" by (simp only: trim_def)
    also have "\<dots> = []" by (simp only: r rev.simps dropWhile.simps)
    finally show False using False by simp
  qed
  from trim_rest [of v] False have "hd ?rest = hd (trim v)" by (metis hd_append2)
  moreover from ne have "\<not> is_space (hd ?rest)" by (rule hd_dropWhile)
  ultimately show ?thesis using last by simp
qed

text \<open>
  Claim C1 as stated fails: the normaliser does not strip every surrounding white
  space. Of the raw label space, tab, \<^verbatim>\<open>abc\<close>, space it keeps the tab, while the value
  without its surrounding white space is \<^verbatim>\<open>abc\<close>.
\<close>

theorem normalize_keeps_tab_counterexample:
  "normalize_Kelompok_Umur (32 # 9 # ascii ''abc'' @ [32]) = 9 # ascii ''abc'' \<and>
   strip_whitespace (32 # 9 # ascii ''abc'' @ [32]) = ascii ''abc''"
  by code_simp

text \<open>
  Claim C1, amended. For every raw label \<open>v\<close> the normaliser strips the surrounding
  space characters (U+0020) and no other white space: \<open>v\<close> is spaces, \<open>t\<close>, spaces,
  where \<open>t\<close> neither begins nor ends with a space. It then tries the six patterns on
  \<open>t\<close> in their order and returns the label of the first that matches: (1) \<open>t\<close>
  contains \<^verbatim>\<open>>=50\<close>, U+2265 \<^verbatim>\<open>50\<close> or the mojibake U+00E2 U+2030 U+00A5 \<^verbatim>\<open>50\<close>;
  (2) loose 0 to 4; (3) loose 5 to 14, or \<open>t\<close> contains \<^verbatim>\<open>14-May\<close>; (4) loose 15 to
  19; (5) loose 20 to 24; (6) loose 25 to 49. When none matches it returns \<open>t\<close>
  unchanged. Loose means as in claim C4, amended: the two numbers occur in \<open>t\<close> with
  at most one character, not a line terminator, between them.
\<close>

theorem normalize_Kelompok_Umur_spec:
  "\<exists>pre t post.
     v = pre @ t @ post \<and> list_all (\<lambda>c. c = 32) pre \<and> list_all (\<lambda>c. c = 32) post \<and>
     (t = [] \<or> (hd t \<noteq> 32 \<and> last t \<noteq> 32)) \<and>
     normalize_Kelompok_Umur v =
       (if occurs (ascii ''>=50'') t \<or> occurs (8805 # ascii ''50'') t \<or>
           occurs (226 # 8240 # 165 # ascii ''50'') t
        then 8805 # ascii ''50''
        else if occurs_loose (ascii ''0'') (ascii ''4'') t then ascii ''0-4''
        else if occurs_loose (ascii ''5'') (ascii ''14'') t \<or> occurs (ascii ''14-May'') t
        then ascii ''5-14''
        else if occurs_loose (ascii ''15'') (ascii ''19'') t then ascii ''15-19''
        else if occurs_loose (ascii ''20'') (ascii ''24'') t then ascii ''20-24''
        else if occurs_loose (ascii ''25'') (ascii ''49'') t then ascii ''25-49''
        else t)"
proof -
  obtain pre post where v: "v = pre @ trim v @ post"
    and pre: "list_all (\<lambda>c. c = 32) pre" and post: "list_all (\<lambda>c. c = 32) post"
    using trim_decompose [of v] unfolding is_space_def by blast
  have ends: "trim v = [] \<or> (hd (trim v) \<noteq> 32 \<and> last (trim v) \<noteq> 32)"
    using trim_ends [of v] by (simp add: is_space_def)
  have ne: "ascii ''>=50'' \<noteq> []" "8805 # ascii ''50'' \<noteq> []"
    "226 # 8240 # 165 # ascii ''50'' \<noteq> []" "ascii ''14-May'' \<noteq> []"
    "ascii ''0'' \<noteq> []" "ascii ''4'' \<noteq> []" "ascii ''5'' \<noteq> []" "ascii ''14'' \<noteq> []"
    "ascii ''15'' \<noteq> []" "ascii ''19'' \<noteq> []" "ascii ''20'' \<noteq> []" "ascii ''24'' \<noteq> []"
    "ascii ''25'' \<noteq> []" "ascii ''49'' \<noteq> []"
    by (simp_all add: ascii_def)
  have p1: "rlike (trim v) pat_ge50 \<longleftrightarrow>
      occurs (ascii ''>=50'') (trim v) \<or> occurs (8805 # ascii ''50'') (trim v) \<or>
      occurs (226 # 8240 # 165 # ascii ''50'') (trim v)"
    by (simp only: pat_ge50_def rlike_Alt rlike_lit [OF ne(1)] rlike_lit [OF ne(2)]
        rlike_lit [OF ne(3)])
  have p2: "rlike (trim v) pat_0_4 = occurs_loose (ascii ''0'') (ascii ''4'') (trim v)"
    by (simp only: pat_0_4_def rlike_loose_occurs [OF ne(5) ne(6)])
  have p3: "rlike (trim v) pat_5_14 \<longleftrightarrow>
      occurs_loose (ascii ''5'') (ascii ''14'') (trim v) \<or> occurs (ascii ''14-May'') (trim v)"
    by (simp only: pat_5_14_def rlike_Alt rlike_loose_occurs [OF ne(7) ne(8)]
        rlike_lit [OF ne(4)])
  have p4: "rlike (trim v) pat_15_19 = occurs_loose (ascii ''15'') (ascii ''19'') (trim v)"
    by (simp only: pat_15_19_def rlike_loose_occurs [OF ne(9) ne(10)])
  have p5: "rlike (trim v) pat_20_24 = occurs_loose (ascii ''20'') (ascii ''24'') (trim v)"
    by (simp only: pat_20_24_def rlike_loose_occurs [OF ne(11) ne(12)])
  have p6: "rlike (trim v) pat_25_49 = occurs_loose (ascii ''25'') (ascii ''49'') (trim v)"
    by (simp only: pat_25_49_def rlike_loose_occurs [OF ne(13) ne(14)])
  have result: "normalize_Kelompok_Umur v =
       (if occurs (ascii ''>=50'') (trim v) \<or> occurs (8805 # ascii ''50'') (trim v) \<or>
           occurs (226 # 8240 # 165 # ascii ''50'') (trim v)
        then 8805 # ascii ''50''
        else if occurs_loose (ascii ''0'') (ascii ''4'') (trim v) then ascii ''0-4''
        else if occurs_loose (ascii ''5'') (ascii ''14'') (trim v) \<or>
                occurs (ascii ''14-May'') (trim v)
        then ascii ''5-14''
        else if occurs_loose (ascii ''15'') (ascii ''19'') (trim v) then ascii ''15-19''
        else if occurs_loose (ascii ''20'') (ascii ''24'') (trim v) then ascii ''20-24''
        else if occurs_loose (ascii ''25'') (ascii ''49'') (trim v) then ascii ''25-49''
        else trim v)"
    by (simp only: normalize_Kelompok_Umur_def p1 p2 p3 p4 p5 p6 label_ge50_def)
  show ?thesis
    by (intro exI conjI) (rule v pre post ends result)+
qed

text \<open>
  Claim C4 as stated fails: the pattern \<^verbatim>\<open>0.?4\<close> matches \<^verbatim>\<open>04\<close>, which has no
  character between the two numbers.
\<close>

theorem loose_zero_between_counterexample:
  "rlike (ascii ''04'') pat_0_4 \<and>
   \<not> exactly_one_between (ascii ''0'') (ascii ''4'') (ascii ''04'')"
  by (simp add: pat_0_4_def loose_def ascii_def exactly_one_between_def)

text \<open>
  Claim C4, amended. A loose pattern \<^verbatim>\<open>a.?b\<close> is matched as a pattern, not by string
  equality: it matches exactly the values that contain, at some position, \<open>a\<close>
  followed by \<open>b\<close> either directly or after one character that is not a line
  terminator. With two or more characters between every \<open>a\<close> and \<open>b\<close> it does not
  match.
\<close>

theorem rlike_loose:
  assumes "a \<noteq> []" and "b \<noteq> []"
  shows "rlike s (loose a b) \<longleftrightarrow>
     (\<exists>pre post. s = pre @ a @ b @ post) \<or>
     (\<exists>pre c post. s = pre @ a @ [c] @ b @ post \<and> \<not> line_terminator c)"
  unfolding rlike_iff rmatch_loose [OF assms] by blast

theorem rlike_loose_witness:
  "ascii ''0'' \<noteq> [] \<and> ascii ''4'' \<noteq> [] \<and>
   (rlike (ascii ''40-44'') (loose (ascii ''0'') (ascii ''4'')) \<longleftrightarrow>
     (\<exists>pre post. ascii ''40-44'' = pre @ ascii ''0'' @ ascii ''4'' @ post) \<or>
     (\<exists>pre c post. ascii ''40-44'' = pre @ ascii ''0'' @ [c] @ ascii ''4'' @ post \<and>
        \<not> line_terminator c))"
proof -
  have a: "ascii ''0'' \<noteq> []" and b: "ascii ''4'' \<noteq> []"
    by (simp_all add: ascii_def)
  from a b rlike_loose [OF a b, of "ascii ''40-44''"] show ?thesis
    by (intro conjI)
qed

text \<open>
  Claim C6. For every year an empty list of regions gives an empty view, not an error,
  and every empty view ends the run with the "no data" warning: the outcome is
  \<open>Stopped\<close>, which carries no aggregate and no insight.
\<close>

theorem empty_filter_stops:
  "filtered_spark df tahun_pilih [] = [] \<and>
   (filtered_spark df tahun_pilih kota_pilih = [] \<longrightarrow>
      dashboard spark df tahun_pilih kota_pilih =
        Stopped [St_warning ''Data tidak tersedia untuk filter tersebut.''])"
  by (simp add: filtered_spark_def dashboard_def)

theorem empty_filter_stops_witness:
  "filtered_spark ex_table 2022 [] = [] \<and>
   dashboard ex_engine ex_table 2022 [] =
     Stopped [St_warning ''Data tidak tersedia untuk filter tersebut.'']"
proof -
  have e: "filtered_spark ex_table 2022 [] = []"
    by (simp add: filtered_spark_def)
  with empty_filter_stops [of ex_table 2022 "[]" ex_engine] show ?thesis by blast
qed



section \<open>Sorting, grouping and the first maximum\<close>

subsection \<open>Sorting\<close>

lemma map_insort_key: "map f (insort_key f x xs) = insort (f x) (map f xs)"
  by (induction xs) simp_all

lemma map_sort_key: "map f (sort_key f xs) = sort (map f xs)"
  by (induction xs) (simp_all add: map_insort_key)

lemma sort_key_Nil_iff: "sort_key f xs = [] \<longleftrightarrow> xs = []"
  using length_sort [of f xs] by (metis length_0_conv)

lemma insort_key_map: "insort_key f (g x) (map g xs) = map g (insort_key (\<lambda>y. f (g y)) x xs)"
  by (induction xs) simp_all

lemma sort_key_map: "sort_key f (map g xs) = map g (sort_key (\<lambda>y. f (g y)) xs)"
  by (induction xs) (simp_all add: insort_key_map)

lemma sort_sort_key:
  assumes "distinct xs"
  shows "sort (sort_key h xs) = sort xs"
proof (rule sorted_distinct_set_unique)
  show "sorted (sort (sort_key h xs))" and "sorted (sort xs)" by simp_all
  show "distinct (sort (sort_key h xs))" and "distinct (sort xs)" using assms by simp_all
  show "set (sort (sort_key h xs)) = set (sort xs)" by simp
qed

lemma sum_list_insort_key:
  fixes g :: "'a \<Rightarrow> int"
  shows "sum_list (map g (insort_key f x xs)) = g x + sum_list (map g xs)"
  by (induction xs) simp_all

lemma sum_list_sort_key:
  fixes g :: "'a \<Rightarrow> int"
  shows "sum_list (map g (sort_key f xs)) = sum_list (map g xs)"
  by (induction xs) (simp_all add: sum_list_insort_key)

subsection \<open>Grouping\<close>

lemma sum_groups:
  fixes val :: "'r \<Rightarrow> int"
  assumes "finite K" and "key ` set rows \<subseteq> K"
  shows "(\<Sum>k\<in>K. sum_list (map val (filter (\<lambda>r. key r = k) rows))) = sum_list (map val rows)"
  using assms(2)
proof (induction rows)
  case Nil
  then show ?case by simp
next
  case (Cons r rows)
  have "(\<Sum>k\<in>K. sum_list (map val (filter (\<lambda>r. key r = k) (r # rows)))) =
        (\<Sum>k\<in>K. (if k = key r then val r else 0) +
                  sum_list (map val (filter (\<lambda>r. key r = k) rows)))"
    by (rule sum.cong) auto
  also have "\<dots> = (\<Sum>k\<in>K. if k = key r then val r else 0) +
                   (\<Sum>k\<in>K. sum_list (map val (filter (\<lambda>r. key r = k) rows)))"
    by (simp add: sum.distrib)
  also have "(\<Sum>k\<in>K. if k = key r then val r else 0) = val r"
    using Cons.prems assms(1) by simp
  finally show ?case using Cons by simp
qed

lemma map_fst_groupBy_sum:
  "map fst (groupBy_sum place key view) = sort_key place (remdups (map key view))"
  by (simp add: groupBy_sum_def comp_def)

text \<open>After \<^verbatim>\<open>orderBy\<close> on the key the placement of the engine does not matter.\<close>

lemma sort_groupBy_sum:
  "sort_key fst (groupBy_sum place key view) =
     map (\<lambda>k. (k, sum_list (map Jumlah_Kasus (filter (\<lambda>r. key r = k) view))))
         (sort (remdups (map key view)))"
  by (simp add: groupBy_sum_def sort_key_map sort_sort_key)

lemma sum_groupBy_sum:
  "sum_list (map snd (groupBy_sum place key view)) = sum_list (map Jumlah_Kasus view)"
proof -
  have "sum_list (map snd (groupBy_sum place key view)) =
        (\<Sum>k\<in>set (map key view). sum_list (map Jumlah_Kasus (filter (\<lambda>r. key r = k) view)))"
    by (simp add: groupBy_sum_def comp_def sum_list_distinct_conv_sum_set)
  also have "\<dots> = sum_list (map Jumlah_Kasus view)"
    by (rule sum_groups) simp_all
  finally show ?thesis .
qed

lemma groupBy_sum_entry:
  "(k, t) \<in> set (groupBy_sum place key view) \<longleftrightarrow>
     k \<in> key ` set view \<and> t = sum_list (map Jumlah_Kasus (filter (\<lambda>r. key r = k) view))"
  by (auto simp: groupBy_sum_def)

lemma sum_list_filter_bounds:
  fixes val :: "'r \<Rightarrow> int"
  assumes "\<forall>r\<in>set rows. 0 \<le> val r"
  shows "0 \<le> sum_list (map val (filter P rows)) \<and>
         sum_list (map val (filter P rows)) \<le> sum_list (map val rows)"
  using assms by (induction rows) auto

subsection \<open>Frames\<close>

lemma map_snd_toPandas: "map snd (toPandas rows) = rows"
  by (simp add: toPandas_def)

lemma map_fst_toPandas: "map fst (toPandas rows) = [0..<length rows]"
  by (simp add: toPandas_def)

lemma map_key_col_toPandas: "map key_col (toPandas rows) = map fst rows"
proof -
  have "map key_col (toPandas rows) = map fst (map snd (toPandas rows))"
    by (simp add: key_col_def comp_def)
  then show ?thesis by (simp add: map_snd_toPandas)
qed

lemma map_Total_toPandas: "map Total (toPandas rows) = map snd rows"
proof -
  have "map Total (toPandas rows) = map snd (map snd (toPandas rows))"
    by (simp add: Total_def comp_def)
  then show ?thesis by (simp add: map_snd_toPandas)
qed

lemma toPandas_Nil_iff: "toPandas rows = [] \<longleftrightarrow> rows = []"
  by (cases rows) (simp_all add: toPandas_def upt_rec)

lemma distinct_labels_toPandas: "distinct (map fst (toPandas rows))"
  by (simp add: map_fst_toPandas)

subsection \<open>The first maximum\<close>

lemma argmax_less: "xs \<noteq> [] \<Longrightarrow> argmax xs < length xs"
proof (induction xs)
  case Nil
  then show ?case by simp
next
  case (Cons x xs)
  then show ?case by (cases xs) auto
qed

lemma argmax_greatest: "j < length xs \<Longrightarrow> xs ! j \<le> xs ! argmax xs"
proof (induction xs arbitrary: j)
  case Nil
  then show ?case by simp
next
  case (Cons x xs)
  show ?case
  proof (cases "list_all (\<lambda>y. y \<le> x) xs")
    case True
    then show ?thesis using Cons.prems by (cases j) (auto simp: list_all_iff)
  next
    case False
    then obtain y where y: "y \<in> set xs" "x < y" by (auto simp: list_all_iff)
    then obtain i where "i < length xs" "xs ! i = y" by (auto simp: in_set_conv_nth)
    with Cons.IH [of i] y have "x < xs ! argmax xs" by simp
    with False Cons show ?thesis by (cases j) auto
  qed
qed

lemma argmax_first: "j < argmax xs \<Longrightarrow> xs ! j < xs ! argmax xs"
proof (induction xs arbitrary: j)
  case Nil
  then show ?case by simp
next
  case (Cons x xs)
  show ?case
  proof (cases "list_all (\<lambda>y. y \<le> x) xs")
    case True
    with Cons.prems show ?thesis by simp
  next
    case False
    then obtain y where y: "y \<in> set xs" "x < y" by (auto simp: list_all_iff)
    then obtain i where "i < length xs" "xs ! i = y" by (auto simp: in_set_conv_nth)
    with argmax_greatest [of i xs] y have "x < xs ! argmax xs" by simp
    with False Cons show ?thesis by (cases j) auto
  qed
qed

lemma find_label:
  "distinct (map fst fr) \<Longrightarrow> i < length fr \<Longrightarrow>
   find (\<lambda>row. fst row = fst (fr ! i)) fr = Some (fr ! i)"
proof (induction fr arbitrary: i)
  case Nil
  then show ?case by simp
next
  case (Cons r fr)
  show ?case
  proof (cases i)
    case 0
    then show ?thesis by simp
  next
    case (Suc k)
    with Cons.prems have "k < length fr" and "fst (fr ! k) \<noteq> fst r"
      by (auto simp: image_iff) (metis nth_mem)
    with Cons Suc show ?thesis by simp
  qed
qed

lemma loc_idxmax_argmax:
  assumes "distinct (map fst fr)" and "fr \<noteq> []"
  shows "loc_idxmax fr = Some (fr ! argmax (map Total fr))"
proof -
  have "argmax (map Total fr) < length fr"
    using argmax_less [of "map Total fr"] assms(2) by simp
  with assms show ?thesis
    by (simp add: loc_idxmax_def idxmax_def loc_def find_label)
qed

lemma first_tied_argmax:
  assumes "fr \<noteq> []"
  shows "first_tied fr = Some (fr ! argmax (map Total fr))"
proof -
  let ?i = "argmax (map Total fr)"
  have i: "?i < length fr"
    using argmax_less [of "map Total fr"] assms by simp
  have top: "list_all (\<lambda>other. Total other \<le> Total (fr ! ?i)) fr"
    unfolding list_all_length
  proof (intro allI impI)
    fix j assume "j < length fr"
    with argmax_greatest [of j "map Total fr"] i show "Total (fr ! j) \<le> Total (fr ! ?i)"
      by simp
  qed
  have before: "\<not> list_all (\<lambda>other. Total other \<le> Total (fr ! j)) fr" if "j < ?i" for j
  proof -
    from that i argmax_first [of j "map Total fr"] have "Total (fr ! j) < Total (fr ! ?i)"
      by simp
    with i show ?thesis by (auto simp: list_all_length)
  qed
  show ?thesis unfolding first_tied_def find_Some_iff
    using i top before by blast
qed

lemma loc_idxmax_first_tied:
  "distinct (map fst fr) \<Longrightarrow> loc_idxmax fr = first_tied fr"
proof (cases "fr = []")
  case True
  then show ?thesis by (simp add: loc_idxmax_def idxmax_def first_tied_def)
next
  case False
  assume "distinct (map fst fr)"
  with False show ?thesis by (simp add: loc_idxmax_argmax first_tied_argmax)
qed

section \<open>The page and its totals\<close>

lemma dashboard_Rendered:
  assumes "dashboard spark df y ks = Rendered p"
  shows "filtered_spark df y ks \<noteq> []"
    and "metric_total_kasus p = total_kasus (filtered_spark df y ks)"
    and "fig_umur p = df_umur spark (filtered_spark df y ks)"
    and "fig_umur_order p = age_category_order spark (filtered_spark df y ks)"
    and "fig_gender p = df_gender spark (filtered_spark df y ks)"
    and "fig_trend p = df_trend spark df ks"
    and "col_umur p = insight_col1 (df_umur spark (filtered_spark df y ks))
                        (total_kasus (filtered_spark df y ks))"
    and "col_gender p = insight_col2 (df_gender spark (filtered_spark df y ks))
                          (total_kasus (filtered_spark df y ks))"
    and "col_puncak p = insight_col3 (df_trend spark df ks)"
  using assms by (auto simp: dashboard_def Let_def split: if_splits)

lemma dashboard_nonempty:
  "filtered_spark df y ks \<noteq> [] \<Longrightarrow> \<exists>p. dashboard spark df y ks = Rendered p"
  by (simp add: dashboard_def Let_def)

lemma total_kasus_sum: "total_kasus view = sum_list (map Jumlah_Kasus view)"
  by (simp add: total_kasus_def spark_sum_def)

lemma set_df_umur: "set (df_umur spark view) = set (toPandas (df_umur_spark spark view))"
  by (simp add: df_umur_def Let_def)

lemma groupBy_sum_Nil_iff: "groupBy_sum place key view = [] \<longleftrightarrow> view = []"
  by (simp add: groupBy_sum_def sort_key_Nil_iff)

lemma df_umur_Nil_iff: "df_umur spark view = [] \<longleftrightarrow> view = []"
proof -
  have "df_umur spark view = [] \<longleftrightarrow> toPandas (df_umur_spark spark view) = []"
    by (simp add: df_umur_def Let_def sort_key_Nil_iff)
  then show ?thesis
    by (simp add: toPandas_Nil_iff df_umur_spark_def sort_key_Nil_iff groupBy_sum_Nil_iff)
qed

lemma df_gender_Nil_iff: "df_gender spark view = [] \<longleftrightarrow> view = []"
  by (simp add: df_gender_def df_gender_spark_def toPandas_Nil_iff groupBy_sum_Nil_iff)

lemma distinct_labels_df_umur: "distinct (map fst (df_umur spark view))"
proof -
  have "distinct (map fst (toPandas (df_umur_spark spark view)))"
    by (rule distinct_labels_toPandas)
  then show ?thesis by (simp add: df_umur_def Let_def distinct_map)
qed

lemma distinct_labels_df_gender: "distinct (map fst (df_gender spark view))"
  by (simp add: df_gender_def distinct_labels_toPandas)

lemma distinct_labels_df_trend: "distinct (map fst (df_trend spark df ks))"
  by (simp add: df_trend_def distinct_labels_toPandas)

lemma sum_df_umur: "sum_list (map Total (df_umur spark view)) = sum_list (map Jumlah_Kasus view)"
proof -
  have "sum_list (map Total (df_umur spark view)) =
        sum_list (map Total (toPandas (df_umur_spark spark view)))"
    by (simp add: df_umur_def Let_def sum_list_sort_key)
  also have "\<dots> = sum_list (map snd (groupBy_sum (text_partition spark) Kelompok_Umur view))"
    by (simp add: map_Total_toPandas df_umur_spark_def sum_list_sort_key)
  finally show ?thesis by (simp add: sum_groupBy_sum)
qed

lemma sum_df_gender: "sum_list (map Total (df_gender spark view)) = sum_list (map Jumlah_Kasus view)"
  by (simp add: df_gender_def map_Total_toPandas df_gender_spark_def sum_groupBy_sum)

lemma df_trend_any_engine: "df_trend spark1 df ks = df_trend spark2 df ks"
  by (simp add: df_trend_def df_trend_spark_def sort_groupBy_sum)

lemma toPandas_row: "row \<in> set (toPandas rows) \<Longrightarrow> (key_col row, Total row) \<in> set rows"
  by (cases row) (auto simp: toPandas_def key_col_def Total_def dest: set_zip_rightD)

lemma df_umur_row:
  "row \<in> set (df_umur spark view) \<Longrightarrow>
   key_col row \<in> Kelompok_Umur ` set view \<and>
   Total row = sum_list (map Jumlah_Kasus (filter (\<lambda>r. Kelompok_Umur r = key_col row) view))"
  using toPandas_row [of row "df_umur_spark spark view"]
  by (simp add: set_df_umur df_umur_spark_def groupBy_sum_entry)

lemma df_gender_row:
  "row \<in> set (df_gender spark view) \<Longrightarrow>
   key_col row \<in> Jenis_Kelamin ` set view \<and>
   Total row = sum_list (map Jumlah_Kasus (filter (\<lambda>r. Jenis_Kelamin r = key_col row) view))"
  using toPandas_row [of row "df_gender_spark spark view"]
  by (simp add: df_gender_def df_gender_spark_def groupBy_sum_entry)

lemma pct_bounds:
  assumes "0 \<le> part" and "part \<le> whole"
  shows "0 \<le> pct part whole \<and> pct part whole \<le> 100 \<and> (whole = 0 \<longrightarrow> pct part whole = 0)"
proof (cases "whole = 0")
  case True
  then show ?thesis by (simp add: pct_def)
next
  case False
  with assms have pos: "0 < whole" by simp
  have eq: "pct part whole = of_int part * 100 / of_int whole"
    using False by (simp add: pct_def)
  have "(of_int part :: rat) \<le> of_int whole" using assms(2) by simp
  then have "(of_int part :: rat) * 100 / of_int whole \<le> 100"
    using pos by (simp add: pos_divide_le_eq)
  moreover have "0 \<le> (of_int part :: rat) * 100 / of_int whole"
    using assms(1) pos by simp
  ultimately show ?thesis using False eq by simp
qed

text \<open>
  Claim C3. For every year and every list of regions whose view is not empty (the page
  is rendered), the total of all cases equals the sum of the totals of the age-group
  table and also the sum of the totals of the gender table.
\<close>

theorem totals_agree:
  assumes "dashboard spark df tahun_pilih kota_pilih = Rendered p"
  shows "metric_total_kasus p = sum_list (map Total (fig_umur p)) \<and>
         metric_total_kasus p = sum_list (map Total (fig_gender p))"
  using dashboard_Rendered(2,3,5) [OF assms]
  by (simp add: total_kasus_sum sum_df_umur sum_df_gender)

text \<open>
  Claim C2. For a fixed list of regions the trend series is computed from the table
  filtered by region only: the pages rendered for any two selected years show the same
  sequence of (year, total) rows, the one that \<open>df_trend\<close> gives without any year,
  whatever order the engine gives the groups in.
\<close>

theorem trend_ignores_year:
  assumes "dashboard spark1 df tahun1 kota_pilih = Rendered p1"
    and "dashboard spark2 df tahun2 kota_pilih = Rendered p2"
  shows "fig_trend p1 = fig_trend p2 \<and> fig_trend p1 = df_trend spark1 df kota_pilih"
  using dashboard_Rendered(6) [OF assms(1)] dashboard_Rendered(6) [OF assms(2)]
    df_trend_any_engine [of spark1 df kota_pilih spark2]
  by simp

text \<open>
  Claim C7. For every rendered view whose case counts are not negative, the percentage
  of the dominant age group and the percentage of the dominant gender lie between 0 and
  100, and both are 0 when the total of all cases is 0. The percentages are the exact
  quotients; the rounding of the Python float is not modelled.
\<close>

theorem dominant_pct_bounds:
  assumes "dashboard spark df tahun_pilih kota_pilih = Rendered p"
    and "\<forall>r\<in>set (filtered_spark df tahun_pilih kota_pilih). 0 \<le> Jumlah_Kasus r"
  shows "(\<exists>name t q. col_umur p = Metric name t q \<and> 0 \<le> q \<and> q \<le> 100 \<and>
            (metric_total_kasus p = 0 \<longrightarrow> q = 0)) \<and>
         (\<exists>name t q. col_gender p = Metric name t q \<and> 0 \<le> q \<and> q \<le> 100 \<and>
            (metric_total_kasus p = 0 \<longrightarrow> q = 0))"
proof -
  let ?view = "filtered_spark df tahun_pilih kota_pilih"
  note page = dashboard_Rendered [OF assms(1)]
  have whole: "metric_total_kasus p = sum_list (map Jumlah_Kasus ?view)"
    using page(2) by (simp add: total_kasus_sum)
  have bounds: "0 \<le> sum_list (map Jumlah_Kasus (filter P ?view)) \<and>
                sum_list (map Jumlah_Kasus (filter P ?view)) \<le> metric_total_kasus p" for P
    unfolding whole by (rule sum_list_filter_bounds) (rule assms(2))
  have umur: "\<exists>name t q. col_umur p = Metric name t q \<and> 0 \<le> q \<and> q \<le> 100 \<and>
            (metric_total_kasus p = 0 \<longrightarrow> q = 0)"
  proof -
    let ?fr = "df_umur spark ?view"
    let ?row = "?fr ! argmax (map Total ?fr)"
    have ne: "?fr \<noteq> []" using page(1) by (simp add: df_umur_Nil_iff)
    then have dom: "loc_idxmax ?fr = Some ?row"
      by (simp add: loc_idxmax_argmax distinct_labels_df_umur)
    have "argmax (map Total ?fr) < length ?fr"
      using argmax_less [of "map Total ?fr"] ne by simp
    then have "?row \<in> set ?fr" by simp
    from df_umur_row [OF this] bounds
    have "0 \<le> Total ?row \<and> Total ?row \<le> metric_total_kasus p" by simp
    then have "0 \<le> pct (Total ?row) (metric_total_kasus p) \<and>
               pct (Total ?row) (metric_total_kasus p) \<le> 100 \<and>
               (metric_total_kasus p = 0 \<longrightarrow> pct (Total ?row) (metric_total_kasus p) = 0)"
      by (simp add: pct_bounds)
    moreover have "col_umur p = Metric (key_col ?row) (Total ?row)
                                  (pct (Total ?row) (metric_total_kasus p))"
      using page(2,7) ne dom by (simp add: insight_col1_def kelompok_dominan_def)
    ultimately show ?thesis by blast
  qed
  have gender: "\<exists>name t q. col_gender p = Metric name t q \<and> 0 \<le> q \<and> q \<le> 100 \<and>
            (metric_total_kasus p = 0 \<longrightarrow> q = 0)"
  proof -
    let ?fr = "df_gender spark ?view"
    let ?row = "?fr ! argmax (map Total ?fr)"
    have ne: "?fr \<noteq> []" using page(1) by (simp add: df_gender_Nil_iff)
    then have dom: "loc_idxmax ?fr = Some ?row"
      by (simp add: loc_idxmax_argmax distinct_labels_df_gender)
    have "argmax (map Total ?fr) < length ?fr"
      using argmax_less [of "map Total ?fr"] ne by simp
    then have "?row \<in> set ?fr" by simp
    from df_gender_row [OF this] bounds
    have "0 \<le> Total ?row \<and> Total ?row \<le> metric_total_kasus p" by simp
    then have "0 \<le> pct (Total ?row) (metric_total_kasus p) \<and>
               pct (Total ?row) (metric_total_kasus p) \<le> 100 \<and>
               (metric_total_kasus p = 0 \<longrightarrow> pct (Total ?row) (metric_total_kasus p) = 0)"
      by (simp add: pct_bounds)
    moreover have "col_gender p = Metric (key_col ?row) (Total ?row)
                                  (pct (Total ?row) (metric_total_kasus p))"
      using page(2,8) dom by (simp add: insight_col2_def)
    ultimately show ?thesis by blast
  qed
  from umur gender show ?thesis by (rule conjI)
qed

section \<open>The order of the age groups\<close>

subsection \<open>Positions in a list\<close>

lemma index_of_less: "x \<in> set xs \<Longrightarrow> index_of xs x < length xs"
  by (induction xs) auto

lemma nth_index_of: "x \<in> set xs \<Longrightarrow> xs ! index_of xs x = x"
  by (induction xs) auto

lemma index_of_nth: "distinct xs \<Longrightarrow> i < length xs \<Longrightarrow> index_of xs (xs ! i) = i"
proof (induction xs arbitrary: i)
  case Nil
  then show ?case by simp
next
  case (Cons x xs)
  then show ?case by (cases i) auto
qed

lemma inj_on_index_of: "inj_on (index_of xs) (set xs)"
  by (rule inj_onI) (metis nth_index_of)

lemma map_index_of: "distinct xs \<Longrightarrow> map (index_of xs) xs = [0..<length xs]"
  by (rule nth_equalityI) (simp_all add: index_of_nth)

lemma unique_distinct: "distinct xs \<Longrightarrow> unique xs = xs"
  by (induction xs) simp_all

lemma sort_by_index:
  assumes "distinct order" and "distinct (map key fr)" and "set (map key fr) = set order"
  shows "map key (sort_key (\<lambda>row. index_of order (key row)) fr) = order"
proof -
  let ?g = "\<lambda>row. index_of order (key row)"
  let ?sorted = "sort_key ?g fr"
  have inj: "inj_on (index_of order) (set (map key fr))"
    using assms(3) inj_on_index_of [of order] by simp
  have codes: "map ?g ?sorted = sort (map (index_of order) (map key fr))"
    by (simp add: map_sort_key comp_def)
  have "distinct (map (index_of order) (map key fr))"
    using assms(2) inj by (simp only: distinct_map)
  then have d1: "distinct (map ?g ?sorted)" by (simp only: codes distinct_sort)
  have s1: "sorted (map ?g ?sorted)" by (simp only: codes sorted_sort)
  have e: "set (map ?g ?sorted) = set (map (index_of order) order)"
  proof -
    have "set (map (index_of order) (map key fr)) = index_of order ` set (map key fr)"
      by (simp only: set_map)
    also have "\<dots> = index_of order ` set order"
      by (rule arg_cong [OF assms(3)])
    also have "\<dots> = set (map (index_of order) order)"
      by (simp only: set_map)
    finally show ?thesis by (simp only: codes set_sort)
  qed
  have s2: "sorted (map (index_of order) order)"
    and d2: "distinct (map (index_of order) order)"
    using assms(1) by (simp_all add: map_index_of)
  have "map ?g ?sorted = map (index_of order) order"
    by (rule sorted_distinct_set_unique [OF s1 d1 s2 d2 e])
  then have eq: "map (index_of order) (map key ?sorted) = map (index_of order) order"
    by (simp add: comp_def)
  have "inj_on (index_of order) (set (map key ?sorted) \<union> set order)"
    using assms(3) inj_on_index_of [of order] by simp
  from inj_on_map_eq_map [OF this] eq show ?thesis by blast
qed

subsection \<open>The display order of the age groups\<close>

lemma distinct_desired_age_order: "distinct desired_age_order"
  by (simp add: desired_age_order_def ascii_def label_ge50_def)

lemma keys_df_umur_spark:
  "map fst (df_umur_spark spark view) = sort (remdups (map Kelompok_Umur view))"
  by (simp add: df_umur_spark_def sort_groupBy_sum comp_def)

lemma unique_ages_toPandas:
  "unique_ages (toPandas (df_umur_spark spark view)) = map fst (df_umur_spark spark view)"
  by (simp add: unique_ages_def map_key_col_toPandas keys_df_umur_spark unique_distinct)

lemma final_order_props:
  assumes "distinct (map key_col fr)"
  shows "distinct (final_order fr)" and "set (final_order fr) = set (map key_col fr)"
  using assms distinct_desired_age_order
  by (auto simp: final_order_def unique_ages_def unique_distinct)

lemma keys_df_umur:
  assumes "view \<noteq> []"
  shows "map key_col (df_umur spark view) = final_order (toPandas (df_umur_spark spark view))"
proof -
  let ?fr = "toPandas (df_umur_spark spark view)"
  have ne: "?fr \<noteq> []"
    using assms
    by (simp add: toPandas_Nil_iff df_umur_spark_def sort_key_Nil_iff groupBy_sum_Nil_iff)
  have d: "distinct (map key_col ?fr)"
    by (simp add: map_key_col_toPandas keys_df_umur_spark)
  have "map key_col (sort_key (\<lambda>row. index_of (final_order ?fr) (key_col row)) ?fr) =
        final_order ?fr"
    using final_order_props [OF d] d by (intro sort_by_index) simp_all
  with ne show ?thesis by (simp add: df_umur_def Let_def)
qed

text \<open>
  Claim C9 as stated fails: a view whose rows have the labels \<^verbatim>\<open>zz\<close>, \<^verbatim>\<open>Abc\<close>,
  \<^verbatim>\<open>0-4\<close> in this order first shows \<^verbatim>\<open>zz\<close> and then \<^verbatim>\<open>Abc\<close>, but the age-group
  table lists \<^verbatim>\<open>Abc\<close> before \<^verbatim>\<open>zz\<close>.
\<close>

theorem first_seen_order_counterexample:
  "map Kelompok_Umur (filtered_spark ex_unsorted 2021 [ascii ''Bogor'']) =
     [ascii ''zz'', ascii ''Abc'', ascii ''0-4''] \<and>
   map key_col (df_umur ex_engine (filtered_spark ex_unsorted 2021 [ascii ''Bogor''])) =
     [ascii ''0-4'', ascii ''Abc'', ascii ''zz'']"
  by code_simp

text \<open>
  Claim C9, amended. For every rendered view the age-group table lists the recognised
  buckets that occur, in the fixed order 0-4, 5-14, 15-19, 20-24, 25-49, >=50, followed
  by the other labels in ascending order of the label strings (the order of their code
  points, in which \<^verbatim>\<open>orderBy\<close> has put the aggregation result before pandas sees it);
  each row carries the sum of the case counts of its label.
\<close>

theorem age_groups_display_order:
  assumes "dashboard spark df tahun_pilih kota_pilih = Rendered p"
  shows "map key_col (fig_umur p) =
           filter (\<lambda>a. a \<in> Kelompok_Umur ` set (filtered_spark df tahun_pilih kota_pilih))
                  desired_age_order @
           filter (\<lambda>a. a \<notin> set desired_age_order)
                  (sort (remdups (map Kelompok_Umur (filtered_spark df tahun_pilih kota_pilih)))) \<and>
         (\<forall>row\<in>set (fig_umur p).
            Total row =
              sum_list (map Jumlah_Kasus
                (filter (\<lambda>r. Kelompok_Umur r = key_col row)
                        (filtered_spark df tahun_pilih kota_pilih))))"
proof -
  let ?view = "filtered_spark df tahun_pilih kota_pilih"
  note page = dashboard_Rendered [OF assms]
  have "map key_col (fig_umur p) = final_order (toPandas (df_umur_spark spark ?view))"
    using page(1,3) by (simp add: keys_df_umur)
  also have "\<dots> = filter (\<lambda>a. a \<in> Kelompok_Umur ` set ?view) desired_age_order @
                   filter (\<lambda>a. a \<notin> set desired_age_order)
                          (sort (remdups (map Kelompok_Umur ?view)))"
    by (simp add: final_order_def unique_ages_toPandas keys_df_umur_spark)
  finally have order: "map key_col (fig_umur p) =
      filter (\<lambda>a. a \<in> Kelompok_Umur ` set ?view) desired_age_order @
      filter (\<lambda>a. a \<notin> set desired_age_order) (sort (remdups (map Kelompok_Umur ?view)))" .
  have sums: "\<forall>row\<in>set (fig_umur p). Total row =
      sum_list (map Jumlah_Kasus (filter (\<lambda>r. Kelompok_Umur r = key_col row) ?view))"
    using page(3) df_umur_row [of _ spark ?view] by simp
  from order sums show ?thesis by (rule conjI)
qed

section \<open>The peak year and the dominant entries\<close>

lemma keys_df_trend:
  "map key_col (df_trend spark df ks) =
     sort (remdups (map Tahun (filter (\<lambda>r. Kabupaten_Kota r \<in> set ks) df)))"
  by (simp add: df_trend_def map_key_col_toPandas df_trend_spark_def sort_groupBy_sum comp_def)

lemma years_ascending: "sorted_wrt (<) (map key_col (df_trend spark df ks))"
  by (simp add: keys_df_trend strict_sorted_iff)

lemma df_trend_Nil_iff:
  "df_trend spark df ks = [] \<longleftrightarrow> filter (\<lambda>r. Kabupaten_Kota r \<in> set ks) df = []"
  by (simp add: df_trend_def toPandas_Nil_iff df_trend_spark_def sort_key_Nil_iff
      groupBy_sum_Nil_iff)

lemma df_trend_nonempty:
  assumes "filtered_spark df y ks \<noteq> []"
  shows "df_trend spark df ks \<noteq> []"
proof -
  from assms obtain r where "r \<in> set df" "Kabupaten_Kota r \<in> set ks"
    by (auto simp: filtered_spark_def filter_empty_conv)
  then have "filter (\<lambda>r. Kabupaten_Kota r \<in> set ks) df \<noteq> []"
    by (auto simp: filter_empty_conv)
  then show ?thesis by (simp add: df_trend_Nil_iff)
qed

lemma yoy_text_ascending:
  assumes "sorted_wrt (<) (map key_col fr)" and "i < length fr"
  shows "yoy_text fr (key_col (fr ! i)) t =
     (if i = 0 \<or> Total (fr ! (i - 1)) = 0 then Tidak_ada_data_sebelumnya
      else Naik_dari (of_int (t - Total (fr ! (i - 1))) / of_int (Total (fr ! (i - 1))) * 100)
             (Total (fr ! (i - 1))))"
proof -
  from assms(1) have s: "sorted (map key_col fr)" and d: "distinct (map key_col fr)"
    by (simp_all add: strict_sorted_iff)
  have same: "sort_key key_col fr = fr" using s by (rule sort_key_id_if_sorted)
  have idx: "index_of (map key_col fr) (key_col (fr ! i)) = i"
    using index_of_nth [OF d, of i] assms(2) by simp
  have mem: "key_col (fr ! i) \<in> set (map key_col fr)"
    using assms(2) by simp
  have prev: "map Total fr ! (i - 1) = Total (fr ! (i - 1))"
    using assms(2) by simp
  have eq: "yoy_text fr (key_col (fr ! i)) t =
     (if 0 < i \<and> Total (fr ! (i - 1)) \<noteq> 0
      then Naik_dari (of_int (t - Total (fr ! (i - 1))) / of_int (Total (fr ! (i - 1))) * 100)
             (Total (fr ! (i - 1)))
      else Tidak_ada_data_sebelumnya)"
    unfolding yoy_text_def same Let_def idx prev using mem by (simp only: if_True)
  show ?thesis
  proof (cases "0 < i \<and> Total (fr ! (i - 1)) \<noteq> 0")
    case True
    then have "\<not> (i = 0 \<or> Total (fr ! (i - 1)) = 0)" by simp
    with True eq show ?thesis by simp
  next
    case False
    then have "i = 0 \<or> Total (fr ! (i - 1)) = 0" by auto
    with False eq show ?thesis by simp
  qed
qed

lemma Min_ascending:
  assumes "sorted_wrt (<) ys" and "i < length ys"
  shows "i = 0 \<longleftrightarrow> ys ! i = Min (set ys)"
proof -
  from assms(1) have s: "sorted ys" and d: "distinct ys"
    by (simp_all add: strict_sorted_iff)
  from assms(2) have ne: "ys \<noteq> []" by auto
  have "Min (set ys) = ys ! 0"
  proof (rule Min_eqI)
    show "finite (set ys)" by simp
    show "ys ! 0 \<in> set ys" using ne by simp
    fix y assume "y \<in> set ys"
    then obtain j where "j < length ys" "ys ! j = y" by (auto simp: in_set_conv_nth)
    with s show "ys ! 0 \<le> y" by (auto simp: sorted_iff_nth_mono)
  qed
  moreover have "ys ! i = ys ! 0 \<longleftrightarrow> i = 0"
    using d assms(2) ne by (simp add: nth_eq_iff_index_eq)
  ultimately show ?thesis by auto
qed

text \<open>
  Claim C5 as stated fails: in a series with the years 2019 (total 0) and 2020 (total 5)
  the peak year 2020 is not the earliest year, and yet the text is the "no previous
  data" marker, not a percentage.
\<close>

theorem peak_without_previous_counterexample:
  "insight_col3 (df_trend ex_engine ex_zero_before_peak [ascii ''Bogor'']) =
     Puncak_Tahun 2020 5 Tidak_ada_data_sebelumnya \<and>
   map key_col (df_trend ex_engine ex_zero_before_peak [ascii ''Bogor'']) = [2019, 2020]"
  by code_simp

text \<open>
  Claim C5, amended. For every non-empty trend series the peak row is a row \<open>i\<close> of
  the largest total in the series sorted by year. Its year-over-year text is the
  "no previous data" marker exactly when the peak year is the earliest year of the
  series (\<open>i = 0\<close>) or the total of the year before it in the series is 0; in every
  other case it is the percentage change against that previous total.
\<close>

theorem peak_year_delta:
  assumes "df_trend spark df kota_pilih \<noteq> []"
  shows "\<exists>i<length (df_trend spark df kota_pilih).
     (\<forall>j<length (df_trend spark df kota_pilih).
        Total (df_trend spark df kota_pilih ! j) \<le> Total (df_trend spark df kota_pilih ! i)) \<and>
     (i = 0 \<longleftrightarrow>
        key_col (df_trend spark df kota_pilih ! i) = Min (set (map key_col (df_trend spark df kota_pilih)))) \<and>
     sorted_wrt (<) (map key_col (df_trend spark df kota_pilih)) \<and>
     insight_col3 (df_trend spark df kota_pilih) =
       Puncak_Tahun (key_col (df_trend spark df kota_pilih ! i)) (Total (df_trend spark df kota_pilih ! i))
         (if i = 0 \<or> Total (df_trend spark df kota_pilih ! (i - 1)) = 0
          then Tidak_ada_data_sebelumnya
          else Naik_dari
                 (of_int (Total (df_trend spark df kota_pilih ! i) -
                          Total (df_trend spark df kota_pilih ! (i - 1))) /
                  of_int (Total (df_trend spark df kota_pilih ! (i - 1))) * 100)
                 (Total (df_trend spark df kota_pilih ! (i - 1))))"
proof -
  let ?fr = "df_trend spark df kota_pilih"
  let ?i = "argmax (map Total ?fr)"
  have i: "?i < length ?fr" using argmax_less [of "map Total ?fr"] assms by simp
  have top: "\<forall>j<length ?fr. Total (?fr ! j) \<le> Total (?fr ! ?i)"
  proof (intro allI impI)
    fix j assume "j < length ?fr"
    with argmax_greatest [of j "map Total ?fr"] i show "Total (?fr ! j) \<le> Total (?fr ! ?i)"
      by simp
  qed
  have asc: "sorted_wrt (<) (map key_col ?fr)" by (rule years_ascending)
  have "?i = 0 \<longleftrightarrow> map key_col ?fr ! ?i = Min (set (map key_col ?fr))"
    using asc i by (intro Min_ascending) simp_all
  then have first: "?i = 0 \<longleftrightarrow> key_col (?fr ! ?i) = Min (set (map key_col ?fr))"
    using i by simp
  have "loc_idxmax ?fr = Some (?fr ! ?i)"
    using assms by (simp add: loc_idxmax_argmax distinct_labels_df_trend)
  then have shown: "insight_col3 ?fr =
      Puncak_Tahun (key_col (?fr ! ?i)) (Total (?fr ! ?i))
        (if ?i = 0 \<or> Total (?fr ! (?i - 1)) = 0 then Tidak_ada_data_sebelumnya
         else Naik_dari (of_int (Total (?fr ! ?i) - Total (?fr ! (?i - 1))) /
                         of_int (Total (?fr ! (?i - 1))) * 100)
                (Total (?fr ! (?i - 1))))"
    by (simp only: insight_col3_def option.case yoy_text_ascending [OF asc i])
  show ?thesis
  proof (intro exI conjI)
    show "?i < length ?fr" by (rule i)
  qed (rule top first asc shown)+
qed

text \<open>
  Claim C10. When several rows have the largest total, each insight reports the first
  of them in the row order of its table (\<open>first_tied\<close>): for the age groups the table
  is in display order, for the gender it is the aggregation output in the order in which
  the engine gives it, whatever that order is, and for the peak year the series is
  ascending by year, so the earliest tied year is reported.
\<close>

theorem first_tied_reported:
  assumes "dashboard spark df tahun_pilih kota_pilih = Rendered p"
  shows "\<exists>ra rg rt.
     first_tied (fig_umur p) = Some ra \<and>
     col_umur p = Metric (key_col ra) (Total ra) (pct (Total ra) (metric_total_kasus p)) \<and>
     map key_col (fig_umur p) = fig_umur_order p \<and>
     first_tied (fig_gender p) = Some rg \<and>
     col_gender p = Metric (key_col rg) (Total rg) (pct (Total rg) (metric_total_kasus p)) \<and>
     first_tied (fig_trend p) = Some rt \<and>
     col_puncak p =
       Puncak_Tahun (key_col rt) (Total rt) (yoy_text (fig_trend p) (key_col rt) (Total rt)) \<and>
     sorted_wrt (<) (map key_col (fig_trend p))"
proof -
  let ?view = "filtered_spark df tahun_pilih kota_pilih"
  note page = dashboard_Rendered [OF assms]
  have ne_umur: "df_umur spark ?view \<noteq> []" using page(1) by (simp add: df_umur_Nil_iff)
  have ne_gender: "df_gender spark ?view \<noteq> []" using page(1) by (simp add: df_gender_Nil_iff)
  have ne_trend: "df_trend spark df kota_pilih \<noteq> []" using page(1) by (rule df_trend_nonempty)
  obtain ra where ra: "first_tied (fig_umur p) = Some ra"
    using ne_umur page(3) by (simp add: first_tied_argmax)
  obtain rg where rg: "first_tied (fig_gender p) = Some rg"
    using ne_gender page(5) by (simp add: first_tied_argmax)
  obtain rt where rt: "first_tied (fig_trend p) = Some rt"
    using ne_trend page(6) by (simp add: first_tied_argmax)
  have "loc_idxmax (df_umur spark ?view) = Some ra"
    using ra page(3) by (simp add: loc_idxmax_first_tied distinct_labels_df_umur)
  then have umur: "col_umur p =
      Metric (key_col ra) (Total ra) (pct (Total ra) (metric_total_kasus p))"
    using page(2,7) ne_umur by (simp add: insight_col1_def kelompok_dominan_def)
  have "loc_idxmax (df_gender spark ?view) = Some rg"
    using rg page(5) by (simp add: loc_idxmax_first_tied distinct_labels_df_gender)
  then have gender: "col_gender p =
      Metric (key_col rg) (Total rg) (pct (Total rg) (metric_total_kasus p))"
    using page(2,8) by (simp add: insight_col2_def)
  have "loc_idxmax (df_trend spark df kota_pilih) = Some rt"
    using rt page(6) by (simp add: loc_idxmax_first_tied distinct_labels_df_trend)
  then have trend: "col_puncak p =
      Puncak_Tahun (key_col rt) (Total rt) (yoy_text (fig_trend p) (key_col rt) (Total rt))"
    using page(6,9) by (simp add: insight_col3_def)
  have "toPandas (df_umur_spark spark ?view) \<noteq> []"
    using page(1)
    by (simp add: toPandas_Nil_iff df_umur_spark_def sort_key_Nil_iff groupBy_sum_Nil_iff)
  then have order: "map key_col (fig_umur p) = fig_umur_order p"
    using page(1,3,4) by (simp add: keys_df_umur age_category_order_def Let_def)
  have asc: "sorted_wrt (<) (map key_col (fig_trend p))"
    using page(6) by (simp add: years_ascending)
  show ?thesis
    by (intro exI conjI) (rule ra umur order rg gender rt trend asc)+
qed

section \<open>The examples\<close>

lemma ex_trend: "df_trend ex_engine ex_table [ascii ''Bandung''] = [(0, 2021, 8), (1, 2022, 15)]"
  by code_simp

lemma ex_view_2021: "filtered_spark ex_table 2021 [ascii ''Bandung''] \<noteq> []"
  by code_simp

lemma ex_page_2022: "dashboard ex_engine ex_table 2022 [ascii ''Bandung''] = Rendered ex_page"
  by code_simp

lemma ex_ties_2021: "dashboard ex_engine ex_ties 2021 [ascii ''Bogor''] = Rendered ex_ties_page"
  by code_simp

lemma ex_view_nonneg:
  "list_all (\<lambda>r. 0 \<le> Jumlah_Kasus r) (filtered_spark ex_table 2022 [ascii ''Bandung''])"
  by code_simp

text \<open>Witness of C2: the example table rendered for 2021 and for 2022.\<close>

theorem trend_ignores_year_witness:
  "\<exists>p1. dashboard ex_engine ex_table 2021 [ascii ''Bandung''] = Rendered p1 \<and>
     dashboard ex_engine ex_table 2022 [ascii ''Bandung''] = Rendered ex_page \<and>
     fig_trend p1 = fig_trend ex_page \<and>
     fig_trend p1 = [(0, 2021, 8), (1, 2022, 15)]"
proof -
  obtain p1 where p1: "dashboard ex_engine ex_table 2021 [ascii ''Bandung''] = Rendered p1"
    using dashboard_nonempty [OF ex_view_2021] by blast
  from trend_ignores_year [OF p1 ex_page_2022]
  have "fig_trend p1 = fig_trend ex_page" by simp
  moreover have "fig_trend ex_page = [(0, 2021, 8), (1, 2022, 15)]"
    by (simp add: ex_page_def)
  ultimately show ?thesis using p1 ex_page_2022 by simp
qed

text \<open>Witness of C3: the example scenario, with the total 15.\<close>

theorem totals_agree_witness:
  "dashboard ex_engine ex_table 2022 [ascii ''Bandung''] = Rendered ex_page \<and>
   metric_total_kasus ex_page = 15 \<and>
   sum_list (map Total (fig_umur ex_page)) = 15 \<and>
   sum_list (map Total (fig_gender ex_page)) = 15"
proof -
  have "metric_total_kasus ex_page = 15" by (simp add: ex_page_def)
  with totals_agree [OF ex_page_2022] ex_page_2022 show ?thesis by simp
qed

text \<open>Witness of C7: the example scenario, whose counts are not negative.\<close>

theorem dominant_pct_bounds_witness:
  "\<exists>name t q. dashboard ex_engine ex_table 2022 [ascii ''Bandung''] = Rendered ex_page \<and>
     list_all (\<lambda>r. 0 \<le> Jumlah_Kasus r) (filtered_spark ex_table 2022 [ascii ''Bandung'']) \<and>
     col_gender ex_page = Metric name t q \<and> 0 \<le> q \<and> q \<le> 100"
proof -
  have nonneg: "\<forall>r\<in>set (filtered_spark ex_table 2022 [ascii ''Bandung'']). 0 \<le> Jumlah_Kasus r"
    using ex_view_nonneg by (simp add: list_all_iff)
  from dominant_pct_bounds [OF ex_page_2022 nonneg] ex_page_2022 ex_view_nonneg
  show ?thesis by blast
qed

text \<open>Witness of C9, amended: a view with one recognised and one other label.\<close>

theorem age_groups_display_order_witness:
  "dashboard ex_engine ex_ties 2021 [ascii ''Bogor''] = Rendered ex_ties_page \<and>
   map key_col (fig_umur ex_ties_page) =
     filter (\<lambda>a. a \<in> Kelompok_Umur ` set (filtered_spark ex_ties 2021 [ascii ''Bogor'']))
            desired_age_order @
     filter (\<lambda>a. a \<notin> set desired_age_order)
            (sort (remdups (map Kelompok_Umur (filtered_spark ex_ties 2021 [ascii ''Bogor''])))) \<and>
   map key_col (fig_umur ex_ties_page) = [ascii ''5-14'', ascii ''zz'']"
proof -
  have "map key_col (fig_umur ex_ties_page) = [ascii ''5-14'', ascii ''zz'']"
    by (simp add: ex_ties_page_def key_col_def)
  with age_groups_display_order [OF ex_ties_2021] ex_ties_2021 show ?thesis
    by (intro conjI) simp_all
qed

text \<open>
  With the other engine the same view has its gender rows in the other order, and the
  insight reports the other tied gender: which tied row comes first in the gender table
  is the engine's choice.
\<close>

lemma ex_ties_reversed:
  "df_gender ex_engine_reversed (filtered_spark ex_ties 2021 [ascii ''Bogor'']) =
     [(0, ascii ''P'', 5), (1, ascii ''L'', 5)] \<and>
   insight_col2 (df_gender ex_engine_reversed (filtered_spark ex_ties 2021 [ascii ''Bogor'']))
     10 = Metric (ascii ''P'') 5 50"
  by code_simp

text \<open>Witness of C10: a table in which every maximum is tied.\<close>

theorem first_tied_reported_witness:
  "dashboard ex_engine ex_ties 2021 [ascii ''Bogor''] = Rendered ex_ties_page \<and>
   first_tied (fig_umur ex_ties_page) = Some (0, ascii ''5-14'', 5) \<and>
   col_umur ex_ties_page = Metric (ascii ''5-14'') 5 50 \<and>
   first_tied (fig_gender ex_ties_page) = Some (0, ascii ''L'', 5) \<and>
   col_gender ex_ties_page = Metric (ascii ''L'') 5 50 \<and>
   first_tied (fig_trend ex_ties_page) = Some (0, 2020, 10) \<and>
   col_puncak ex_ties_page = Puncak_Tahun 2020 10 Tidak_ada_data_sebelumnya"
proof -
  from first_tied_reported [OF ex_ties_2021] obtain ra rg rt where
    ra: "first_tied (fig_umur ex_ties_page) = Some ra" and
    rg: "first_tied (fig_gender ex_ties_page) = Some rg" and
    rt: "first_tied (fig_trend ex_ties_page) = Some rt"
    by blast
  have "first_tied (fig_umur ex_ties_page) = Some (0, ascii ''5-14'', 5)"
    and "first_tied (fig_gender ex_ties_page) = Some (0, ascii ''L'', 5)"
    and "first_tied (fig_trend ex_ties_page) = Some (0, 2020, 10)"
    by (simp_all add: ex_ties_page_def first_tied_def Total_def)
  moreover have "col_umur ex_ties_page = Metric (ascii ''5-14'') 5 50"
    and "col_gender ex_ties_page = Metric (ascii ''L'') 5 50"
    and "col_puncak ex_ties_page = Puncak_Tahun 2020 10 Tidak_ada_data_sebelumnya"
    by (simp_all add: ex_ties_page_def)
  ultimately show ?thesis using ex_ties_2021 ra rg rt by (intro conjI)
qed

text \<open>Witness of C5, amended: the example scenario, where 2022 follows 2021.\<close>

theorem peak_year_delta_witness:
  "df_trend ex_engine ex_table [ascii ''Bandung''] \<noteq> [] \<and>
   insight_col3 (df_trend ex_engine ex_table [ascii ''Bandung'']) =
     Puncak_Tahun 2022 15 (Naik_dari (175 / 2) 8)"
proof -
  let ?fr = "df_trend ex_engine ex_table [ascii ''Bandung'']"
  have ne: "?fr \<noteq> []" by (simp add: ex_trend)
  from peak_year_delta [OF ne] obtain i where
    i: "i < length ?fr" and
    top: "\<forall>j<length ?fr. Total (?fr ! j) \<le> Total (?fr ! i)" and
    shown: "insight_col3 ?fr =
       Puncak_Tahun (key_col (?fr ! i)) (Total (?fr ! i))
         (if i = 0 \<or> Total (?fr ! (i - 1)) = 0 then Tidak_ada_data_sebelumnya
          else Naik_dari (of_int (Total (?fr ! i) - Total (?fr ! (i - 1))) /
                          of_int (Total (?fr ! (i - 1))) * 100)
                 (Total (?fr ! (i - 1))))"
    by blast
  from i have "i = 0 \<or> i = 1" by (auto simp: ex_trend)
  moreover have "1 < length ?fr" by (simp add: ex_trend)
  with top have "Total (?fr ! 1) \<le> Total (?fr ! i)" by blast
  ultimately have "i = 1" by (auto simp: ex_trend Total_def)
  with shown have "insight_col3 ?fr = Puncak_Tahun 2022 15 (Naik_dari (175 / 2) 8)"
    by (simp add: ex_trend Total_def key_col_def)
  with ne show ?thesis by simp
qed

end
